theory Spec2Isabelle
  imports Main "HOL-Library.Word" "HOL-Library.AList" "HOL-Library.Sublist"
begin

section \<open>Data model of cmux.go\<close>

text \<open>
  A Go \<^verbatim>\<open>byte\<close> is an 8-bit word. A byte slice is a list; the nil slice and the empty
  slice are both the empty list (they have the same length and contents).
\<close>

type_synonym byte = "8 word"

text \<open>
  Go's \<^verbatim>\<open>error\<close> values. \<open>ErrNotFound\<close> is the sentinel declared in cmux.go; the
  others are what a reader may report (\<^verbatim>\<open>io.EOF\<close>, or any other failure).
\<close>

datatype error = ErrNotFound | EOF | ErrOther string

text \<open>
  An \<^verbatim>\<open>io.Reader\<close> over a stream state \<open>'s\<close>: \<open>rd s n\<close> is one call of
  \<^verbatim>\<open>Read(p)\<close> with \<open>len(p) = n\<close>. It answers the bytes it stored at the front of
  \<open>p\<close> (their number is the count \<open>i\<close> that \<^verbatim>\<open>Read\<close> returns), the error it
  reports, and the next stream state. Nothing forces the count to stay within \<open>n\<close>:
  what the code does with a reader that breaks that contract is part of the model.
  The count is a natural number: a reader that returns a negative count is not modelled.
\<close>

type_synonym 's reader = "'s \<Rightarrow> nat \<Rightarrow> (byte list \<times> error option) \<times> 's"

text \<open>
  The package \<^verbatim>\<open>github.com/wzshiming/trie\<close> is imported by cmux.go and is not part of
  its sources. The operations that cmux.go calls on it are taken as a parameter:
  \<open>'t\<close> is \<^verbatim>\<open>*trie.Trie[Handler]\<close>, \<open>'c\<close> is the cursor \<^verbatim>\<open>*trie.Mapping[Handler]\<close>
  (a nil cursor is \<open>None\<close>) and \<open>'h\<close> a non-nil \<^verbatim>\<open>Handler\<close> (nil is \<open>None\<close>).
  \<open>Get\<close> is \<^verbatim>\<open>Mapping.Get\<close>, answering \<^verbatim>\<open>(data, next, ok)\<close>.
\<close>

record ('t, 'c, 'h) trie_ops =
  NewTrie :: 't
  Put :: "byte list \<Rightarrow> 'h \<Rightarrow> 't \<Rightarrow> 't"
  Size :: "'t \<Rightarrow> nat"
  Depth :: "'t \<Rightarrow> nat"
  Mapping :: "'t \<Rightarrow> 'c"
  Get :: "'c \<Rightarrow> byte list \<Rightarrow> 'h option \<times> 'c option \<times> bool"

record ('t, 'h) cmux =
  trie :: 't
  notFound :: "'h option"

text \<open>
  What \<^verbatim>\<open>CMux.Handler\<close> returns: the triple \<^verbatim>\<open>(handler, prefix, err)\<close>, or a
  run-time panic (slice bounds out of range).
\<close>

datatype 'h result = Return "'h option" "byte list" "error option" | Panic

text \<open>
  The log of the calls of \<^verbatim>\<open>r.Read(prefix[off:])\<close>: the offset \<open>off\<close> at the call,
  the length of the slice handed to the reader, and what the reader answered.
\<close>

record read_call =
  offset :: nat
  room :: nat
  data :: "byte list"
  rerr :: "error option"

section \<open>CMux.Handler\<close>

text \<open>How the \<^verbatim>\<open>for\<close> loop of \<^verbatim>\<open>CMux.Handler\<close> is left.\<close>

datatype 'h loop_exit =
    Failed error
  | Broke "'h option" nat "byte list"
  | Panicked

text \<open>
  The loop of lines 66 to 85. Its variables are \<open>parent\<close>, \<open>off\<close>, \<open>pfx\<close> (the
  buffer \<^verbatim>\<open>prefix\<close>, whole and of fixed length) and \<open>handler\<close>; \<open>s\<close> is the stream
  and \<open>tr\<close> the log of reads so far. \<open>length pfx - off\<close> is \<^verbatim>\<open>len(prefix[off:])\<close>:
  \<open>off\<close> never exceeds the length of the buffer, as the bound on the reads shows below.
  The slice expression \<^verbatim>\<open>prefix[off : off+i]\<close> panics when \<open>off + i\<close> exceeds the
  capacity of the buffer, which is its length. A read writes the bytes it returns at
  \<open>off\<close>, over the bytes that were there.
\<close>

function loop ::
  "('c \<Rightarrow> byte list \<Rightarrow> 'h option \<times> 'c option \<times> bool) \<Rightarrow> 's reader \<Rightarrow>
   'c \<Rightarrow> nat \<Rightarrow> byte list \<Rightarrow> 'h option \<Rightarrow> 's \<Rightarrow> read_call list \<Rightarrow>
   'h loop_exit \<times> 's \<times> read_call list"
where
  "loop get rd parent off pfx handler s tr =
    (case rd s (length pfx - off) of
      ((bs, err), s') \<Rightarrow>
        let i = length bs;
            tr' = tr @ [\<lparr>offset = off, room = length pfx - off, data = bs, rerr = err\<rparr>]
        in (case err of
              Some e \<Rightarrow> (Failed e, s', tr')
            | None \<Rightarrow>
                if i = 0 then (Broke handler off pfx, s', tr')
                else if length pfx < off + i then (Panicked, s', tr')
                else (case get parent bs of
                        (d, next, ok) \<Rightarrow>
                          let handler' = (if ok \<and> d \<noteq> None then d else handler);
                              pfx' = take off pfx @ bs @ drop (off + i) pfx;
                              off' = off + i
                          in (case next of
                                None \<Rightarrow> (Broke handler' off' pfx', s', tr')
                              | Some parent' \<Rightarrow>
                                  loop get rd parent' off' pfx' handler' s' tr'))))"
  by pat_completeness auto
termination
  by (relation "measure (\<lambda>(get, rd, parent, off, pfx, handler, s, tr). length pfx - off)")
     (auto simp flip: length_greater_0_conv)

declare loop.simps [simp del]

text \<open>Lines 86 to 92: what is returned once the loop is left by \<^verbatim>\<open>break\<close>.\<close>

definition after_loop :: "'h option \<Rightarrow> 'h option \<Rightarrow> nat \<Rightarrow> byte list \<Rightarrow> 'h result" where
  "after_loop nf handler off pfx =
    (case handler of
       Some h \<Rightarrow> Return (Some h) (take off pfx) None
     | None \<Rightarrow>
        (case nf of
           None \<Rightarrow> Return None (take off pfx) (Some ErrNotFound)
         | Some f \<Rightarrow> Return (Some f) (take off pfx) None))"

text \<open>
  \<^verbatim>\<open>CMux.Handler\<close> from a state of its loop on: the loop runs, and its exit decides
  the result (line 69 for a failed read, lines 86 to 92 after a \<^verbatim>\<open>break\<close>).
\<close>

definition Handler_from ::
  "('t, 'c, 'h) trie_ops \<Rightarrow> ('t, 'h) cmux \<Rightarrow> 's reader \<Rightarrow>
   'c \<Rightarrow> nat \<Rightarrow> byte list \<Rightarrow> 'h option \<Rightarrow> 's \<Rightarrow> read_call list \<Rightarrow>
   'h result \<times> 's \<times> read_call list"
where
  "Handler_from ops m rd parent off pfx handler s tr =
    (case loop (Get ops) rd parent off pfx handler s tr of
       (Failed e, s', tr') \<Rightarrow> (Return None [] (Some e), s', tr')
     | (Panicked, s', tr') \<Rightarrow> (Panic, s', tr')
     | (Broke h off' pfx', s', tr') \<Rightarrow> (after_loop (notFound m) h off' pfx', s', tr'))"

text \<open>
  \<^verbatim>\<open>CMux.Handler\<close> (lines 56 to 93). The result comes with the stream state after the
  call and the log of the reads the call made.
\<close>

definition Handler ::
  "('t, 'c, 'h) trie_ops \<Rightarrow> ('t, 'h) cmux \<Rightarrow> 's reader \<Rightarrow> 's \<Rightarrow>
   'h result \<times> 's \<times> read_call list"
where
  "Handler ops m rd s =
    (if Size ops (trie m) = 0 then
       (case notFound m of
          None \<Rightarrow> (Return None [] (Some ErrNotFound), s, [])
        | Some f \<Rightarrow> (Return (Some f) [] None, s, []))
     else
       Handler_from ops m rd (Mapping ops (trie m)) 0
         (replicate (Depth ops (trie m)) 0) None s [])"

section \<open>Registration\<close>

text \<open>
  Lines 34 to 53. A pattern \<^verbatim>\<open>[]byte(prefix)\<close> is the byte list of the string.
  \<^verbatim>\<open>NotFound\<close> and \<^verbatim>\<open>HandlePrefix\<close> always return a nil error, which is left out.
  The fallback may be set to nil; the handler of a pattern is not nil in this model.
\<close>

definition NewCMux :: "('t, 'c, 'h) trie_ops \<Rightarrow> ('t, 'h) cmux" where
  "NewCMux ops = \<lparr>trie = NewTrie ops, notFound = None\<rparr>"

definition NotFound :: "'h option \<Rightarrow> ('t, 'h) cmux \<Rightarrow> ('t, 'h) cmux" where
  "NotFound handler m = m\<lparr>notFound := handler\<rparr>"

definition HandlePrefix ::
  "('t, 'c, 'h) trie_ops \<Rightarrow> 'h \<Rightarrow> byte list list \<Rightarrow> ('t, 'h) cmux \<Rightarrow> ('t, 'h) cmux"
where
  "HandlePrefix ops handler ps m =
     m\<lparr>trie := fold (\<lambda>p t. Put ops p handler t) ps (trie m)\<rparr>"

section \<open>CMux.ServeConn\<close>

text \<open>
  Modelled from the spec: \<^verbatim>\<open>UnreadConn\<close> is called by cmux.go and its definition is
  not in the sources. By section 4.3 of the specification the wrapped stream owns the
  consumed prefix and refers to the original stream.
\<close>

definition UnreadConn :: "'s \<Rightarrow> byte list \<Rightarrow> byte list \<times> 's" where
  "UnreadConn conn buf = (buf, conn)"

text \<open>
  Modelled from the spec: reading the wrapped stream, which is not in the sources either.
  By section 4.3 the first reads are served from the prefix, in order and in full,
  before a read touches the stream; once the prefix is used up, reads go to the stream.
\<close>

definition unread_Read :: "'s reader \<Rightarrow> (byte list \<times> 's) reader" where
  "unread_Read rd w n =
    (case w of
       (buf, s) \<Rightarrow>
         if buf = [] then (case rd s n of (r, s') \<Rightarrow> (r, ([], s')))
         else ((take n buf, None), (drop n buf, s)))"

text \<open>
  What \<^verbatim>\<open>ServeConn\<close> does to the connection: it closes it, or it hands a wrapped
  connection to a handler.
\<close>

datatype ('h, 's) event = Closed 's | Served 'h "byte list \<times> 's"

fun is_Served :: "('h, 's) event \<Rightarrow> bool" where
  "is_Served (Served h w) = True"
| "is_Served (Closed s) = False"

text \<open>
  Lines 96 to 104. The result is the list of events, or \<open>None\<close> when the call
  panics (in \<^verbatim>\<open>Handler\<close>, or by calling a method of a nil handler).
\<close>

definition ServeConn ::
  "('t, 'c, 'h) trie_ops \<Rightarrow> ('t, 'h) cmux \<Rightarrow> 's reader \<Rightarrow> 's \<Rightarrow> ('h, 's) event list option"
where
  "ServeConn ops m rd conn =
    (case Handler ops m rd conn of
       (Panic, s', tr) \<Rightarrow> None
     | (Return connector buf (Some e), s', tr) \<Rightarrow> Some [Closed s']
     | (Return connector buf None, s', tr) \<Rightarrow>
         (case connector of
            None \<Rightarrow> None
          | Some c \<Rightarrow> Some [Served c (UnreadConn s' buf)]))"

section \<open>The pattern index\<close>

text \<open>
  Modelled from the spec: the pattern index (package \<^verbatim>\<open>github.com/wzshiming/trie\<close>)
  is not in the sources. Its contract is section 4.1 of the specification. The index is
  the list of the registered patterns with their handlers, one entry for each pattern.
\<close>

type_synonym 'h patterns = "(byte list \<times> 'h) list"

text \<open>
  Modelled from the spec: \<open>insert(pattern, handler)\<close> of the absent pattern index. It
  registers a pattern; inserting an identical pattern again replaces its handler.
\<close>

definition insert_pattern :: "byte list \<Rightarrow> 'h \<Rightarrow> 'h patterns \<Rightarrow> 'h patterns" where
  "insert_pattern p h t = AList.update p h t"

text \<open>
  Modelled from the spec: \<open>maxPatternLength()\<close> of the absent pattern index, the length
  of the longest registered pattern (0 when there is none).
\<close>

definition maxPatternLength :: "'h patterns \<Rightarrow> nat" where
  "maxPatternLength t = foldr (\<lambda>(p, h) d. max (length p) d) t 0"

text \<open>
  Modelled from the spec: the cursors of the absent pattern index. The cursor after the
  bytes \<open>chunk\<close> is what is left of the index below them: the patterns that properly
  extend \<open>chunk\<close>, with \<open>chunk\<close> removed. Nothing is left once no registered pattern can
  be extended further.
\<close>

definition below :: "byte list \<Rightarrow> 'h patterns \<Rightarrow> 'h patterns" where
  "below chunk c =
     map (\<lambda>(p, h). (drop (length chunk) p, h)) (filter (\<lambda>(p, h). strict_prefix chunk p) c)"

text \<open>
  Modelled from the spec: \<open>advance(cursor, chunk)\<close> of the absent pattern index. It
  answers the handler at this point, which is there only if the bytes consumed so far
  are exactly a registered pattern; the next cursor, which is none once no registered
  pattern can be extended further; and \<open>matched\<close>, which says that the chunk is a valid
  continuation of at least one registered pattern.
\<close>

definition advance :: "'h patterns \<Rightarrow> byte list \<Rightarrow> 'h option \<times> 'h patterns option \<times> bool" where
  "advance c chunk =
     (map_of c chunk,
      (if below chunk c = [] then None else Some (below chunk c)),
      list_ex (\<lambda>(p, h). prefix chunk p) c)"

text \<open>
  Modelled from the spec: the operations of the absent pattern index that cmux.go calls.
  \<open>size()\<close> is the number of distinct registered patterns, and \<open>root()\<close> the cursor at
  the empty prefix, which is the whole index.
\<close>

definition spec_trie :: "('h patterns, 'h patterns, 'h) trie_ops" where
  "spec_trie =
     \<lparr>NewTrie = [], Put = insert_pattern, Size = length, Depth = maxPatternLength,
      Mapping = (\<lambda>t. t), Get = advance\<rparr>"

section \<open>Streams of bytes\<close>

text \<open>
  A stream that holds the bytes \<open>bs\<close> and hands out at most \<open>k\<close> of them at each read
  (\<open>k = 1\<close>: one byte per read; \<open>k\<close> at least the number of bytes: all that fits in
  the caller's buffer). Once the bytes are used up, every read answers no byte and
  \<open>fin\<close>: \<open>Some EOF\<close> is the end of stream of Go's readers (\<^verbatim>\<open>0, io.EOF\<close>), and
  \<open>None\<close> a read of zero bytes without an error.
\<close>

definition chunked :: "nat \<Rightarrow> error option \<Rightarrow> byte list reader" where
  "chunked k fin bs n =
     (if bs = [] then (([], fin), [])
      else ((take (min k n) bs, None), drop (min k n) bs))"

text \<open>
  Reading a stream with up to \<open>fuel\<close> reads into a buffer of \<open>n\<close> bytes, until a read
  reports an error: the bytes obtained, in order, and that error.
\<close>

fun read_all :: "nat \<Rightarrow> nat \<Rightarrow> 's reader \<Rightarrow> 's \<Rightarrow> byte list \<times> error option" where
  "read_all 0 n rd s = ([], None)"
| "read_all (Suc fuel) n rd s =
     (case rd s n of
        ((bs, Some e), s') \<Rightarrow> (bs, Some e)
      | ((bs, None), s') \<Rightarrow>
          (case read_all fuel n rd s' of (rest, e) \<Rightarrow> (bs @ rest, e)))"

section \<open>What a call returns\<close>



section \<open>The index, at once and byte by byte\<close>




section \<open>Example registries\<close>

text \<open>
  Registries built with \<^verbatim>\<open>NewCMux\<close> and \<^verbatim>\<open>HandlePrefix\<close>, with numbers for
  handlers: \<^verbatim>\<open>"AB"\<close> for handler 1 and \<^verbatim>\<open>"ABC"\<close> for handler 2; the same with
  \<^verbatim>\<open>"ABCD"\<close> for handler 3; \<^verbatim>\<open>"A"\<close> for handler 1 and \<^verbatim>\<open>"AB"\<close> for handler 2;
  \<^verbatim>\<open>"XYZ"\<close> for handler 1.
\<close>

definition AB_ABC :: "(nat patterns, nat) cmux" where
  "AB_ABC =
     HandlePrefix spec_trie 2 [[65, 66, 67]] (HandlePrefix spec_trie 1 [[65, 66]] (NewCMux spec_trie))"



definition XYZ :: "(nat patterns, nat) cmux" where
  "XYZ = HandlePrefix spec_trie 1 [[88, 89, 90]] (NewCMux spec_trie)"

section \<open>Reads and the buffer\<close>

text \<open>
  A log of reads in which every read is handed exactly the part of a buffer of \<open>D\<close>
  bytes behind the bytes obtained so far: the read at offset \<open>off\<close> gets the slice of
  the \<open>D - off\<close> bytes from \<open>off\<close> on, and the next read starts behind what it
  obtained.
\<close>

fun reads_in_suffix :: "nat \<Rightarrow> nat \<Rightarrow> read_call list \<Rightarrow> bool" where
  "reads_in_suffix D off [] = True"
| "reads_in_suffix D off (c # cs) =
     (offset c = off \<and> off \<le> D \<and> room c = D - off \<and> reads_in_suffix D (off + length (data c)) cs)"

section \<open>The loop, one iteration at a time\<close>

lemma loop_read_failed:
  "rd s (length pfx - off) = ((bs, Some e), s') \<Longrightarrow>
   loop get rd parent off pfx handler s tr =
     (Failed e, s', tr @ [\<lparr>offset = off, room = length pfx - off, data = bs, rerr = Some e\<rparr>])"
  by (simp add: loop.simps)

lemma loop_zero_read:
  "rd s (length pfx - off) = (([], None), s') \<Longrightarrow>
   loop get rd parent off pfx handler s tr =
     (Broke handler off pfx, s', tr @ [\<lparr>offset = off, room = length pfx - off, data = [], rerr = None\<rparr>])"
  by (simp add: loop.simps)

lemma loop_step:
  "rd s (length pfx - off) = ((bs, None), s') \<Longrightarrow> bs \<noteq> [] \<Longrightarrow>
   off + length bs \<le> length pfx \<Longrightarrow> get parent bs = (d, next, ok) \<Longrightarrow>
   loop get rd parent off pfx handler s tr =
     (case next of
        None \<Rightarrow>
          (Broke (if ok \<and> d \<noteq> None then d else handler) (off + length bs)
             (take off pfx @ bs @ drop (off + length bs) pfx), s',
           tr @ [\<lparr>offset = off, room = length pfx - off, data = bs, rerr = None\<rparr>])
      | Some parent' \<Rightarrow>
          loop get rd parent' (off + length bs) (take off pfx @ bs @ drop (off + length bs) pfx)
            (if ok \<and> d \<noteq> None then d else handler) s'
            (tr @ [\<lparr>offset = off, room = length pfx - off, data = bs, rerr = None\<rparr>]))"
  by (subst loop.simps) (auto simp add: Let_def split: option.splits)

lemma loop_panic:
  "rd s (length pfx - off) = ((bs, None), s') \<Longrightarrow> bs \<noteq> [] \<Longrightarrow>
   length pfx < off + length bs \<Longrightarrow>
   loop get rd parent off pfx handler s tr =
     (Panicked, s', tr @ [\<lparr>offset = off, room = length pfx - off, data = bs, rerr = None\<rparr>])"
  by (subst loop.simps) (auto simp add: Let_def)

lemma loop_cases_induct [consumes 0, case_names iter]:
  assumes step: "\<And>parent off pfx handler s tr.
     (\<And>bs s' d ok parent'.
        (rd :: 's reader) s (length pfx - off) = ((bs, None), s') \<Longrightarrow> bs \<noteq> [] \<Longrightarrow>
        off + length bs \<le> length pfx \<Longrightarrow> get parent bs = (d, Some parent', ok) \<Longrightarrow>
        P parent' (off + length bs) (take off pfx @ bs @ drop (off + length bs) pfx)
          (if ok \<and> d \<noteq> None then d else handler) s'
          (tr @ [\<lparr>offset = off, room = length pfx - off, data = bs, rerr = None\<rparr>])) \<Longrightarrow>
     P parent off pfx handler s tr"
  shows "P parent off pfx handler s tr"
proof -
  have "g = get \<Longrightarrow> r = rd \<Longrightarrow> P parent off pfx handler s tr" for g r
  proof (induction g r parent off pfx handler s tr rule: loop.induct)
    case (1 g r parent off pfx handler s tr)
    show ?case
    proof (rule step)
      fix bs s' d ok parent'
      assume a: "rd s (length pfx - off) = ((bs, None), s')" "bs \<noteq> []"
        "off + length bs \<le> length pfx" "get parent bs = (d, Some parent', ok)"
      have a1: "((bs, None), s') = r s (length pfx - off)"
        and a4: "(d, Some parent', ok) = g parent bs"
        using a "1.prems" by simp_all
      show "P parent' (off + length bs) (take off pfx @ bs @ drop (off + length bs) pfx)
            (if ok \<and> d \<noteq> None then d else handler) s'
            (tr @ [\<lparr>offset = off, room = length pfx - off, data = bs, rerr = None\<rparr>])"
        by (rule "1.IH" [OF a1 refl refl refl refl _ _ a4 refl refl refl refl refl])
           (use a "1.prems" in auto)
    qed
  qed
  then show ?thesis by simp
qed

lemma loop_trace:
  "loop get rd parent off pfx handler s tr = (ex, s', tr') \<Longrightarrow> off \<le> length pfx \<Longrightarrow>
   \<exists>new. tr' = tr @ new \<and> new \<noteq> [] \<and> reads_in_suffix (length pfx) off new \<and>
     (\<forall>c \<in> set (butlast new). rerr c = None \<and> data c \<noteq> []) \<and>
     (\<forall>e. ex = Failed e \<longrightarrow> rerr (last new) = Some e) \<and>
     (ex = Panicked \<longrightarrow> rerr (last new) = None) \<and>
     (\<forall>h off' pfx'. ex = Broke h off' pfx' \<longrightarrow>
        rerr (last new) = None \<and> off' \<le> length pfx \<and> length pfx' = length pfx \<and>
        take off' pfx' = take off pfx @ concat (map data new))"
proof (induction parent off pfx handler s tr rule: loop_cases_induct [where get = get and rd = rd])
  case (iter parent off pfx handler s tr)
  obtain bs err s1 where rd: "rd s (length pfx - off) = ((bs, err), s1)"
    by (metis prod.exhaust)
  let ?c = "\<lparr>offset = off, room = length pfx - off, data = bs, rerr = err\<rparr>"
  show ?case
  proof (cases err)
    case (Some e)
    with rd iter.prems show ?thesis
      by (auto simp: loop_read_failed intro!: exI [of _ "[?c]"])
  next
    case None
    note rdN = rd [unfolded None]
    show ?thesis
    proof (cases "bs = []")
      case True
      with rdN iter.prems show ?thesis
        by (auto simp: loop_zero_read None intro!: exI [of _ "[?c]"])
    next
      case False
      show ?thesis
      proof (cases "length pfx < off + length bs")
        case True
        with rdN iter.prems False show ?thesis
          by (auto simp: loop_panic None intro!: exI [of _ "[?c]"])
      next
        case inb: False
        obtain d nxt ok where g: "get parent bs = (d, nxt, ok)"
          by (metis prod.exhaust)
        have le: "off + length bs \<le> length pfx" using inb by simp
        note st = loop_step [where rd = rd and get = get and handler = handler and tr = tr,
            OF rdN False le g]
        show ?thesis
        proof (cases nxt)
          case nN: None
          with st iter.prems le show ?thesis
            by (auto simp: None intro!: exI [of _ "[?c]"])
        next
          case (Some parent')
          let ?pfx' = "take off pfx @ bs @ drop (off + length bs) pfx"
          have len: "length ?pfx' = length pfx" using le by simp
          have le': "off + length bs \<le> length ?pfx'" using le len by simp
          have tk: "take (off + length bs) ?pfx' = take off pfx @ bs"
            using le by simp
          from st Some iter.prems(1)
          have run: "loop get rd parent' (off + length bs) ?pfx'
              (if ok \<and> d \<noteq> None then d else handler) s1
              (tr @ [\<lparr>offset = off, room = length pfx - off, data = bs, rerr = None\<rparr>])
               = (ex, s', tr')"
            by simp
          from iter.IH [OF rdN False le g [unfolded Some] run le', unfolded len tk]
          obtain new where new: "tr' = (tr @ [?c]) @ new" "new \<noteq> []"
            "reads_in_suffix (length pfx) (off + length bs) new"
            "\<forall>c \<in> set (butlast new). rerr c = None \<and> data c \<noteq> []"
            "\<forall>e. ex = Failed e \<longrightarrow> rerr (last new) = Some e"
            "ex = Panicked \<longrightarrow> rerr (last new) = None"
            "\<forall>h off' pfx'. ex = Broke h off' pfx' \<longrightarrow>
                rerr (last new) = None \<and> off' \<le> length pfx \<and> length pfx' = length pfx \<and>
                take off' pfx' = (take off pfx @ bs) @ concat (map data new)"
            unfolding None by blast
          show ?thesis
            apply (rule exI [of _ "?c # new"])
            using new iter.prems(2) le False
            by (auto simp: None)
        qed
      qed
    qed
  qed
qed

lemma Handler_trace:
  assumes H: "Handler ops m rd s = (res, s', tr)" and nz: "Size ops (trie m) \<noteq> 0"
  shows "tr \<noteq> [] \<and> reads_in_suffix (Depth ops (trie m)) 0 tr \<and>
     (\<forall>c \<in> set (butlast tr). rerr c = None \<and> data c \<noteq> []) \<and>
     (case rerr (last tr) of
        Some e \<Rightarrow> res = Return None [] (Some e)
      | None \<Rightarrow> res = Panic \<or>
          length (concat (map data tr)) \<le> Depth ops (trie m) \<and>
          (\<exists>h. res = Return h (concat (map data tr)) (if h = None then Some ErrNotFound else None) \<and>
               (h = None \<longrightarrow> notFound m = None)))"
proof -
  let ?D = "Depth ops (trie m)"
  obtain ex where L: "loop (Get ops) rd (Mapping ops (trie m)) 0 (replicate ?D 0) None s []
       = (ex, s', tr)"
    and R: "res = (case ex of Failed e \<Rightarrow> Return None [] (Some e) | Panicked \<Rightarrow> Panic
              | Broke h off' pfx' \<Rightarrow> after_loop (notFound m) h off' pfx')"
    using H nz by (auto simp: Handler_def Handler_from_def split: prod.splits loop_exit.splits)
  from loop_trace [OF L] obtain new where new: "tr = new" "new \<noteq> []"
     "reads_in_suffix ?D 0 new"
     "\<forall>c \<in> set (butlast new). rerr c = None \<and> data c \<noteq> []"
     "\<forall>e. ex = Failed e \<longrightarrow> rerr (last new) = Some e"
     "ex = Panicked \<longrightarrow> rerr (last new) = None"
     "\<forall>h off' pfx'. ex = Broke h off' pfx' \<longrightarrow>
        rerr (last new) = None \<and> off' \<le> ?D \<and> length pfx' = ?D \<and>
        take off' pfx' = concat (map data new)"
    by auto
  show ?thesis
  proof (cases ex)
    case (Failed e) with new R show ?thesis by simp
  next
    case Panicked with new R show ?thesis by simp
  next
    case (Broke h off' pfx')
    with new have b: "rerr (last tr) = None" "off' \<le> ?D" "length pfx' = ?D"
      "take off' pfx' = concat (map data tr)" by auto
    have "length (concat (map data tr)) = length (take off' pfx')"
      by (simp only: b(4))
    also have "\<dots> = off'" using b(2,3) by simp
    finally have "length (concat (map data tr)) \<le> ?D" using b(2) by simp
    with b new R Broke show ?thesis
      by (auto simp: after_loop_def split: option.splits)
  qed
qed

lemma reads_in_suffix_all:
  "reads_in_suffix D off tr \<Longrightarrow> c \<in> set tr \<Longrightarrow> offset c \<le> D \<and> room c = D - offset c"
  by (induction tr arbitrary: off) auto

lemma reads_in_suffix_accepted:
  "reads_in_suffix D off tr \<Longrightarrow> c \<in> set (butlast tr) \<Longrightarrow> offset c + length (data c) \<le> D"
proof (induction tr arbitrary: off)
  case Nil
  then show ?case by simp
next
  case (Cons a tr)
  show ?case
  proof (cases tr)
    case Nil
    with Cons.prems show ?thesis by simp
  next
    case (Cons b tr')
    with Cons.prems Cons.IH [of "off + length (data a)"] show ?thesis
      by auto
  qed
qed

lemma Handler_empty_log:
  "Size ops (trie m) = 0 \<Longrightarrow> Handler ops m rd s = (res, s', tr) \<Longrightarrow> tr = [] \<and> s' = s"
  by (auto simp: Handler_def split: option.splits)

lemma Handler_success_handler:
  "Handler ops m rd s = (Return h p None, s', tr) \<Longrightarrow> h \<noteq> None"
  by (auto simp: Handler_def Handler_from_def after_loop_def
      split: option.splits if_splits prod.splits loop_exit.splits dest: sym)

section \<open>The empty index\<close>

text \<open>
  Claim C5. When the pattern index is empty (\<^verbatim>\<open>Size() == 0\<close>), \<^verbatim>\<open>Handler\<close> makes
  no read on the stream: the log of reads is empty and the stream is returned as it was
  given, for every reader. It returns the fallback handler with no consumed bytes when a
  fallback is set, and fails with \<open>ErrNotFound\<close> otherwise.
\<close>

theorem Handler_empty_index:
  "Size ops (trie m) = 0 \<Longrightarrow>
   Handler ops m rd s =
     ((case notFound m of
         None \<Rightarrow> Return None [] (Some ErrNotFound)
       | Some f \<Rightarrow> Return (Some f) [] None), s, [])"
  by (simp add: Handler_def split: option.splits)

text \<open>
  The theorem at the registry of \<^verbatim>\<open>NewCMux\<close> and a stream holding \<^verbatim>\<open>"GET"\<close>.
\<close>

theorem Handler_empty_index_witness:
  "Size spec_trie (trie (NewCMux spec_trie :: (nat patterns, nat) cmux)) = 0 \<and>
   Handler spec_trie (NewCMux spec_trie :: (nat patterns, nat) cmux)
     (chunked 1 (Some EOF)) [71, 69, 84] =
     (Return None [] (Some ErrNotFound), [71, 69, 84], [])"
proof -
  have h: "Size spec_trie (trie (NewCMux spec_trie :: (nat patterns, nat) cmux)) = 0"
    by (simp add: spec_trie_def NewCMux_def)
  show ?thesis
    using h Handler_empty_index [OF h, of "chunked 1 (Some EOF)" "[71, 69, 84]"]
    by (simp add: NewCMux_def)
qed

section \<open>Leaving the loop\<close>

text \<open>
  Claim C10. At every iteration of the matching loop, whatever the offset, the buffer,
  the cursor and the handler remembered so far: if the read returns zero bytes and no
  error, the loop ends with that read (the log grows by that one read), and the result is
  built from the bytes accumulated so far, \<^verbatim>\<open>prefix[:off]\<close>: the remembered handler if
  there is one, else the fallback, else the error \<open>ErrNotFound\<close>.
\<close>

theorem zero_byte_read_ends_loop:
  "rd s (length pfx - off) = (([], None), s') \<Longrightarrow>
   Handler_from ops m rd parent off pfx handler s tr =
     ((case handler of
         Some h \<Rightarrow> Return (Some h) (take off pfx) None
       | None \<Rightarrow>
          (case notFound m of
             Some f \<Rightarrow> Return (Some f) (take off pfx) None
           | None \<Rightarrow> Return None (take off pfx) (Some ErrNotFound))),
      s',
      tr @ [\<lparr>offset = off, room = length pfx - off, data = [], rerr = None\<rparr>])"
  by (simp add: Handler_from_def loop_zero_read after_loop_def split: option.splits)

text \<open>
  The theorem after \<^verbatim>\<open>"AB"\<close> has been read and handler 1 remembered: the stream has no
  more bytes and answers a read of zero bytes without an error.
\<close>

theorem zero_byte_read_ends_loop_witness:
  "chunked 2 None [] (length [65, 66, 0 :: byte] - 2) = (([], None), []) \<and>
   Handler_from spec_trie (NotFound (Some 0) AB_ABC) (chunked 2 None) [([67], 2)] 2 [65, 66, 0]
      (Some 1) [] [\<lparr>offset = 0, room = 3, data = [65, 66], rerr = None\<rparr>] =
     (Return (Some 1) [65, 66] None, [],
      [\<lparr>offset = 0, room = 3, data = [65, 66], rerr = None\<rparr>,
       \<lparr>offset = 2, room = 1, data = [], rerr = None\<rparr>])"
proof -
  have h: "chunked 2 None [] (length [65, 66, 0 :: byte] - 2) = (([], None), [])"
    by (simp add: chunked_def)
  show ?thesis
    using h zero_byte_read_ends_loop [where rd = "chunked 2 None" and s = "[]" and s' = "[]"
        and pfx = "[65, 66, 0]" and off = 2 and ops = spec_trie
        and m = "NotFound (Some 0) AB_ABC" and parent = "[([67], 2)]" and handler = "Some (1::nat)"
        and tr = "[\<lparr>offset = 0, room = 3, data = [65, 66], rerr = None\<rparr>]", OF h]
    by simp
qed

text \<open>
  Claim C4. For a non-empty index, when the matching loop has ended by \<^verbatim>\<open>break\<close>:
  the bytes \<^verbatim>\<open>prefix[:off]\<close> are exactly the bytes that the reads returned, in order;
  a remembered handler is returned with them; otherwise the fallback, if one is
  registered, is returned with them; otherwise \<^verbatim>\<open>Handler\<close> fails with \<open>ErrNotFound\<close>.
\<close>

theorem Handler_after_loop:
  assumes nz: "Size ops (trie m) \<noteq> 0"
    and L: "loop (Get ops) rd (Mapping ops (trie m)) 0 (replicate (Depth ops (trie m)) 0) None s []
          = (Broke handler off pfx, s', tr)"
  shows "take off pfx = concat (map data tr) \<and>
    Handler ops m rd s =
     ((case handler of
         Some h \<Rightarrow> Return (Some h) (take off pfx) None
       | None \<Rightarrow>
          (case notFound m of
             Some f \<Rightarrow> Return (Some f) (take off pfx) None
           | None \<Rightarrow> Return None (take off pfx) (Some ErrNotFound))), s', tr)"
proof -
  from loop_trace [OF L] have "take off pfx = concat (map data tr)" by auto
  moreover have "Handler ops m rd s =
     ((case handler of
         Some h \<Rightarrow> Return (Some h) (take off pfx) None
       | None \<Rightarrow>
          (case notFound m of
             Some f \<Rightarrow> Return (Some f) (take off pfx) None
           | None \<Rightarrow> Return None (take off pfx) (Some ErrNotFound))), s', tr)"
    using nz L by (simp add: Handler_def Handler_from_def after_loop_def split: option.splits)
  ultimately show ?thesis by simp
qed

text \<open>
  The theorem at the registry of \<^verbatim>\<open>"XYZ"\<close> with the fallback 9 and a stream holding
  \<^verbatim>\<open>"QQQ"\<close>: the fallback is returned with the three bytes read.
\<close>

theorem Handler_after_loop_witness:
  "Size spec_trie (trie (NotFound (Some 9) XYZ)) \<noteq> 0 \<and>
   loop (Get spec_trie) (chunked 3 (Some EOF)) (Mapping spec_trie (trie (NotFound (Some 9) XYZ))) 0
      (replicate (Depth spec_trie (trie (NotFound (Some 9) XYZ))) 0) None [81, 81, 81] [] =
     (Broke None 3 [81, 81, 81], [],
      [\<lparr>offset = 0, room = 3, data = [81, 81, 81], rerr = None\<rparr>]) \<and>
   Handler spec_trie (NotFound (Some 9) XYZ) (chunked 3 (Some EOF)) [81, 81, 81] =
     (Return (Some 9) [81, 81, 81] None, [],
      [\<lparr>offset = 0, room = 3, data = [81, 81, 81], rerr = None\<rparr>])"
proof -
  have nz: "Size spec_trie (trie (NotFound (Some 9) XYZ)) \<noteq> 0"
    by code_simp
  have L: "loop (Get spec_trie) (chunked 3 (Some EOF))
      (Mapping spec_trie (trie (NotFound (Some 9) XYZ))) 0
      (replicate (Depth spec_trie (trie (NotFound (Some 9) XYZ))) 0) None [81, 81, 81] [] =
     (Broke None 3 [81, 81, 81], [],
      [\<lparr>offset = 0, room = 3, data = [81, 81, 81], rerr = None\<rparr>])"
    by code_simp
  have nf: "notFound (NotFound (Some 9) XYZ) = Some 9"
    by (simp add: NotFound_def)
  show ?thesis
    using nz L Handler_after_loop [OF nz L] by (simp add: nf)
qed

section \<open>Read errors\<close>

text \<open>
  Claim C2 says that a read failure after a read that returned bytes does not fail
  \<^verbatim>\<open>Handler\<close>, which goes on to the matched handler. It does fail: with \<^verbatim>\<open>"AB"\<close>,
  \<^verbatim>\<open>"ABC"\<close> and a fallback registered, a stream that delivers \<^verbatim>\<open>"AB"\<close> in one read
  and then reports the end of stream (\<^verbatim>\<open>0, io.EOF\<close>) makes \<^verbatim>\<open>Handler\<close> return
  \<^verbatim>\<open>io.EOF\<close>, and neither the handler of \<^verbatim>\<open>"AB"\<close> nor the fallback.
\<close>

theorem partial_read_then_error_counterexample:
  "Handler spec_trie (NotFound (Some 0) AB_ABC) (chunked 2 (Some EOF)) [65, 66] =
     (Return None [] (Some EOF), [],
      [\<lparr>offset = 0, room = 3, data = [65, 66], rerr = None\<rparr>,
       \<lparr>offset = 2, room = 1, data = [], rerr = Some EOF\<rparr>])"
  by code_simp

theorem read_error_is_returned:
  assumes H: "Handler ops m rd s = (res, s', tr)" and c: "c \<in> set tr" "rerr c = Some e"
  shows "res = Return None [] (Some e)"
proof -
  have nz: "Size ops (trie m) \<noteq> 0"
  proof
    assume "Size ops (trie m) = 0"
    from Handler_empty_log [OF this H] c show False by simp
  qed
  note T = Handler_trace [OF H nz]
  have "c \<in> set (butlast tr) \<or> c = last tr"
    using c(1) by (cases tr rule: rev_cases) auto
  with T c(2) have "c = last tr" by auto
  with T c(2) show ?thesis by simp
qed

text \<open>
  The theorem at a stream that delivers \<^verbatim>\<open>"AB"\<close> and then fails.
\<close>

theorem read_error_is_returned_witness:
  "Handler spec_trie AB_ABC (chunked 2 (Some (ErrOther ''reset''))) [65, 66] =
     (Return None [] (Some (ErrOther ''reset'')), [],
      [\<lparr>offset = 0, room = 3, data = [65, 66], rerr = None\<rparr>,
       \<lparr>offset = 2, room = 1, data = [], rerr = Some (ErrOther ''reset'')\<rparr>]) \<and>
   \<lparr>offset = 2, room = 1, data = [], rerr = Some (ErrOther ''reset'')\<rparr> \<in>
     set [\<lparr>offset = 0, room = 3, data = [65, 66], rerr = None\<rparr>,
       \<lparr>offset = 2, room = 1, data = [], rerr = Some (ErrOther ''reset'')\<rparr>] \<and>
   rerr \<lparr>offset = 2, room = 1, data = [], rerr = Some (ErrOther ''reset'')\<rparr> =
     Some (ErrOther ''reset'')"
proof -
  have h: "Handler spec_trie AB_ABC (chunked 2 (Some (ErrOther ''reset''))) [65, 66] =
     (Return None [] (Some (ErrOther ''reset'')), [],
      [\<lparr>offset = 0, room = 3, data = [65, 66], rerr = None\<rparr>,
       \<lparr>offset = 2, room = 1, data = [], rerr = Some (ErrOther ''reset'')\<rparr>])"
    by code_simp
  show ?thesis
    using h read_error_is_returned [OF h,
        of "\<lparr>offset = 2, room = 1, data = [], rerr = Some (ErrOther ''reset'')\<rparr>"
           "ErrOther ''reset''"]
    by simp
qed

text \<open>
  Claim C3 says that the bytes consumed so far come with every error. They do not come
  with a read failure: with \<^verbatim>\<open>"AB"\<close> and \<^verbatim>\<open>"ABC"\<close> registered, a stream that
  delivers \<^verbatim>\<open>"AB"\<close> in one read and then fails makes \<^verbatim>\<open>Handler\<close> return the failure
  with no bytes, although two bytes have been consumed.
\<close>

theorem error_without_consumed_bytes_counterexample:
  "Handler spec_trie AB_ABC (chunked 3 (Some (ErrOther ''connection reset''))) [65, 66] =
     (Return None [] (Some (ErrOther ''connection reset'')), [],
      [\<lparr>offset = 0, room = 3, data = [65, 66], rerr = None\<rparr>,
       \<lparr>offset = 2, room = 1, data = [], rerr = Some (ErrOther ''connection reset'')\<rparr>])"
  by code_simp

theorem error_result_bytes:
  assumes H: "Handler ops m rd s = (Return h p (Some e), s', tr)"
  shows "h = None \<and>
    (if tr \<noteq> [] \<and> rerr (last tr) \<noteq> None then rerr (last tr) = Some e \<and> p = []
     else e = ErrNotFound \<and> p = concat (map data tr))"
proof (cases "Size ops (trie m) = 0")
  case True
  with H show ?thesis by (auto simp: Handler_def split: option.splits)
next
  case False
  from Handler_trace [OF H False] show ?thesis
    by (auto split: option.splits if_splits)
qed

text \<open>
  The theorem at the registry of \<^verbatim>\<open>"XYZ"\<close> without a fallback and a stream holding
  \<^verbatim>\<open>"QQQQ"\<close>.
\<close>

theorem error_result_bytes_witness:
  "Handler spec_trie XYZ (chunked 3 (Some EOF)) [81, 81, 81, 81] =
     (Return None [81, 81, 81] (Some ErrNotFound), [81],
      [\<lparr>offset = 0, room = 3, data = [81, 81, 81], rerr = None\<rparr>]) \<and>
   [81, 81, 81] = concat (map data [\<lparr>offset = 0, room = 3, data = [81, 81, 81], rerr = None\<rparr>])"
proof -
  have h: "Handler spec_trie XYZ (chunked 3 (Some EOF)) [81, 81, 81, 81] =
     (Return None [81, 81, 81] (Some ErrNotFound), [81],
      [\<lparr>offset = 0, room = 3, data = [81, 81, 81], rerr = None\<rparr>])"
    by code_simp
  show ?thesis
    using h error_result_bytes [OF h] by simp
qed

section \<open>The bound on the bytes read\<close>

text \<open>
  Claim C7. For a non-empty index and every stream, with \<open>D\<close> the depth of the trie:
  there is a first read, and it is handed a buffer of \<open>D\<close> bytes (the whole buffer
  \<^verbatim>\<open>make([]byte, m.trie.Depth())\<close>); every read is handed exactly the
  part of that buffer behind the bytes obtained so far; every read that is followed by
  another one stayed within the part it was handed; and the bytes returned are at most
  \<open>D\<close>.
\<close>

theorem Handler_reads_within_buffer:
  assumes H: "Handler ops m rd s = (res, s', tr)" and nz: "Size ops (trie m) \<noteq> 0"
  shows "tr \<noteq> [] \<and> reads_in_suffix (Depth ops (trie m)) 0 tr \<and>
    (\<forall>c \<in> set tr. offset c \<le> Depth ops (trie m) \<and> room c = Depth ops (trie m) - offset c) \<and>
    (\<forall>c \<in> set (butlast tr). offset c + length (data c) \<le> Depth ops (trie m)) \<and>
    (\<forall>h p e. res = Return h p e \<longrightarrow> length p \<le> Depth ops (trie m))"
proof -
  note T = Handler_trace [OF H nz]
  from T have R: "reads_in_suffix (Depth ops (trie m)) 0 tr" and ne: "tr \<noteq> []"
    by simp_all
  have "\<forall>h p e. res = Return h p e \<longrightarrow> length p \<le> Depth ops (trie m)"
    using T by (auto split: option.splits)
  with R ne reads_in_suffix_all [OF R] reads_in_suffix_accepted [OF R] show ?thesis
    by blast
qed

text \<open>
  The theorem at the registry of \<^verbatim>\<open>"AB"\<close> and \<^verbatim>\<open>"ABC"\<close> and a stream that delivers
  \<^verbatim>\<open>"ABCD"\<close> one byte at a time.
\<close>

theorem Handler_reads_within_buffer_witness:
  "Handler spec_trie AB_ABC (chunked 1 (Some EOF)) [65, 66, 67, 68] =
     (Return (Some 2) [65, 66, 67] None, [68],
      [\<lparr>offset = 0, room = 3, data = [65], rerr = None\<rparr>,
       \<lparr>offset = 1, room = 2, data = [66], rerr = None\<rparr>,
       \<lparr>offset = 2, room = 1, data = [67], rerr = None\<rparr>]) \<and>
   Size spec_trie (trie AB_ABC) \<noteq> 0 \<and> Depth spec_trie (trie AB_ABC) = 3 \<and>
   reads_in_suffix 3 0
      [\<lparr>offset = 0, room = 3, data = [65], rerr = None\<rparr>,
       \<lparr>offset = 1, room = 2, data = [66], rerr = None\<rparr>,
       \<lparr>offset = 2, room = 1, data = [67], rerr = None\<rparr>] \<and>
   length [65, 66, 67 :: byte] \<le> 3"
proof -
  have h: "Handler spec_trie AB_ABC (chunked 1 (Some EOF)) [65, 66, 67, 68] =
     (Return (Some 2) [65, 66, 67] None, [68],
      [\<lparr>offset = 0, room = 3, data = [65], rerr = None\<rparr>,
       \<lparr>offset = 1, room = 2, data = [66], rerr = None\<rparr>,
       \<lparr>offset = 2, room = 1, data = [67], rerr = None\<rparr>])"
    by code_simp
  have nz: "Size spec_trie (trie AB_ABC) \<noteq> 0"
    by code_simp
  have d: "Depth spec_trie (trie AB_ABC) = 3"
    by code_simp
  show ?thesis
    using h nz d Handler_reads_within_buffer [OF h nz] by simp
qed

section \<open>Dispatch\<close>

text \<open>
  Claim C6. \<^verbatim>\<open>ServeConn\<close> invokes at most one handler. When \<^verbatim>\<open>Handler\<close> returns an
  error, the connection is closed and no handler is invoked. When it succeeds, the handler
  it returned is not nil, and exactly that handler is invoked, once, with the connection
  wrapped around the consumed bytes.
\<close>

theorem ServeConn_one_handler:
  "(case Handler ops m rd conn of
      (Panic, s', tr) \<Rightarrow> ServeConn ops m rd conn = None
    | (Return h buf (Some e), s', tr) \<Rightarrow> ServeConn ops m rd conn = Some [Closed s']
    | (Return h buf None, s', tr) \<Rightarrow>
        (\<exists>c. h = Some c \<and> ServeConn ops m rd conn = Some [Served c (UnreadConn s' buf)])) \<and>
   (\<forall>evs. ServeConn ops m rd conn = Some evs \<longrightarrow> length (filter is_Served evs) \<le> 1)"
proof -
  obtain res s' tr where H: "Handler ops m rd conn = (res, s', tr)"
    by (metis prod.exhaust)
  show ?thesis
  proof (cases res)
    case Panic
    with H show ?thesis by (simp add: ServeConn_def)
  next
    case (Return h buf err)
    show ?thesis
    proof (cases err)
      case (Some e)
      with H Return show ?thesis by (simp add: ServeConn_def)
    next
      case None
      with H Return Handler_success_handler [of ops m rd conn h buf s' tr]
      obtain c where "h = Some c" by auto
      with H Return None show ?thesis by (simp add: ServeConn_def)
    qed
  qed
qed

text \<open>
  The theorem at the registry of \<^verbatim>\<open>"AB"\<close> and \<^verbatim>\<open>"ABC"\<close> and a stream holding
  \<^verbatim>\<open>"ABCD"\<close>.
\<close>

theorem ServeConn_one_handler_witness:
  "ServeConn spec_trie AB_ABC (chunked 2 (Some EOF)) [65, 66, 67, 68] =
     Some [Served 2 (UnreadConn [68] [65, 66, 67])] \<and>
   length (filter is_Served [Served (2::nat) (UnreadConn [68 :: byte] [65, 66, 67])]) \<le> 1"
proof -
  have h: "ServeConn spec_trie AB_ABC (chunked 2 (Some EOF)) [65, 66, 67, 68] =
     Some [Served 2 (UnreadConn [68] [65, 66, 67])]"
    by code_simp
  show ?thesis
    using h ServeConn_one_handler [of spec_trie AB_ABC "chunked 2 (Some EOF)" "[65, 66, 67, 68]"]
    by simp
qed

section \<open>Streams of bytes: what the reads return\<close>

lemma loop_stream_log:
  fixes rd :: "byte list reader"
  assumes bytes: "\<And>s n. fst (fst (rd s n)) @ snd (rd s n) = s"
  shows "loop get rd parent off pfx handler s tr = (ex, s', tr') \<Longrightarrow>
    \<exists>new. tr' = tr @ new \<and> concat (map data new) @ s' = s"
proof (induction parent off pfx handler s tr rule: loop_cases_induct [where get = get and rd = rd])
  case (iter parent off pfx handler s tr)
  obtain bs err s1 where rd: "rd s (length pfx - off) = ((bs, err), s1)"
    by (metis prod.exhaust)
  from bytes [of s "length pfx - off"] rd have s: "bs @ s1 = s" by simp
  let ?c = "\<lparr>offset = off, room = length pfx - off, data = bs, rerr = err\<rparr>"
  show ?case
  proof (cases err)
    case (Some e)
    with rd iter.prems s show ?thesis
      by (auto simp: loop_read_failed intro!: exI [of _ "[?c]"])
  next
    case None
    note rdN = rd [unfolded None]
    show ?thesis
    proof (cases "bs = []")
      case True
      with rdN iter.prems s show ?thesis
        by (auto simp: loop_zero_read None intro!: exI [of _ "[?c]"])
    next
      case False
      show ?thesis
      proof (cases "length pfx < off + length bs")
        case True
        with rdN iter.prems False s show ?thesis
          by (auto simp: loop_panic None intro!: exI [of _ "[?c]"])
      next
        case inb: False
        obtain d nxt ok where g: "get parent bs = (d, nxt, ok)"
          by (metis prod.exhaust)
        have le: "off + length bs \<le> length pfx" using inb by simp
        note st = loop_step [where rd = rd and get = get and handler = handler and tr = tr,
            OF rdN False le g]
        show ?thesis
        proof (cases nxt)
          case nN: None
          with st iter.prems s show ?thesis
            by (auto simp: None intro!: exI [of _ "[?c]"])
        next
          case (Some parent')
          from st Some iter.prems(1)
          have run: "loop get rd parent' (off + length bs)
              (take off pfx @ bs @ drop (off + length bs) pfx)
              (if ok \<and> d \<noteq> None then d else handler) s1
              (tr @ [\<lparr>offset = off, room = length pfx - off, data = bs, rerr = None\<rparr>])
               = (ex, s', tr')"
            by simp
          from iter.IH [OF rdN False le g [unfolded Some] run]
          obtain new where new: "tr' = (tr @ [?c]) @ new" "concat (map data new) @ s' = s1"
            unfolding None by blast
          show ?thesis
            apply (rule exI [of _ "?c # new"])
            using new s by auto
        qed
      qed
    qed
  qed
qed

lemma chunked_bytes: "fst (fst (chunked k fin s n)) @ snd (chunked k fin s n) = s"
  by (simp add: chunked_def)

lemma chunked_Nil: "chunked k fin [] n = (([], fin), [])"
  by (simp add: chunked_def)

lemma chunked_more:
  "bs \<noteq> [] \<Longrightarrow> chunked k fin bs n = ((take (min k n) bs, None), drop (min k n) bs)"
  by (simp add: chunked_def)

lemma Handler_stream_log:
  fixes rd :: "byte list reader"
  assumes bytes: "\<And>s n. fst (fst (rd s n)) @ snd (rd s n) = s"
    and H: "Handler ops m rd s = (res, s', tr)"
  shows "concat (map data tr) @ s' = s"
proof (cases "Size ops (trie m) = 0")
  case True
  with Handler_empty_log [OF True H] show ?thesis by simp
next
  case False
  with H obtain ex where
    "loop (Get ops) rd (Mapping ops (trie m)) 0 (replicate (Depth ops (trie m)) 0) None s [] =
       (ex, s', tr)"
    by (auto simp: Handler_def Handler_from_def split: prod.splits loop_exit.splits)
  from loop_stream_log [of rd, OF bytes this] show ?thesis by simp
qed

lemma Handler_success_bytes:
  assumes H: "Handler ops m rd s = (Return h buf None, s', tr)"
  shows "buf = concat (map data tr)"
proof (cases "Size ops (trie m) = 0")
  case True
  with H show ?thesis by (auto simp: Handler_def split: option.splits)
next
  case False
  from Handler_trace [OF H False] show ?thesis
    by (auto split: option.splits)
qed

section \<open>One iteration, seen from the caller\<close>





section \<open>The longest match\<close>




section \<open>Chunking\<close>








section \<open>Replay\<close>

lemma unread_Read_through:
  "unread_Read rd ([], s) n = (case rd s n of (r, s') \<Rightarrow> (r, ([], s')))"
  by (simp add: unread_Read_def)

lemma unread_Read_buffered:
  "buf \<noteq> [] \<Longrightarrow> unread_Read rd (buf, s) n = ((take n buf, None), (drop n buf, s))"
  by (simp add: unread_Read_def)

lemma read_all_chunked_done: "read_all fuel n (chunked k None) [] = ([], None)"
  by (induction fuel) (simp_all add: chunked_Nil)

lemma read_all_chunked:
  "0 < k \<Longrightarrow> 0 < n \<Longrightarrow> length bs < fuel \<Longrightarrow> read_all fuel n (chunked k fin) bs = (bs, fin)"
proof (induction fuel arbitrary: bs)
  case 0
  then show ?case by simp
next
  case (Suc fuel)
  show ?case
  proof (cases "bs = []")
    case True
    then show ?thesis
      by (cases fin) (simp_all add: chunked_Nil read_all_chunked_done)
  next
    case False
    let ?j = "min k n"
    have j: "0 < ?j" using Suc.prems by simp
    have "length (drop ?j bs) < fuel" using Suc.prems(3) False j by (cases bs) auto
    from Suc.IH [OF Suc.prems(1,2) this] False show ?thesis
      by (simp add: chunked_more)
  qed
qed

lemma read_all_unread_done:
  "read_all fuel n (unread_Read (chunked k None)) ([], []) = ([], None)"
  by (induction fuel) (simp_all add: chunked_Nil unread_Read_through)

lemma read_all_unread:
  "0 < k \<Longrightarrow> 0 < n \<Longrightarrow> length buf + length rest < fuel \<Longrightarrow>
   read_all fuel n (unread_Read (chunked k fin)) (buf, rest) = (buf @ rest, fin)"
proof (induction fuel arbitrary: buf rest)
  case 0
  then show ?case by simp
next
  case (Suc fuel)
  show ?case
  proof (cases "buf = []")
    case buf: True
    show ?thesis
    proof (cases "rest = []")
      case True
      with buf show ?thesis
        by (cases fin) (simp_all add: chunked_Nil unread_Read_through read_all_unread_done)
    next
      case False
      let ?j = "min k n"
      have j: "0 < ?j" using Suc.prems by simp
      have "length ([] :: byte list) + length (drop ?j rest) < fuel"
        using Suc.prems(3) False j buf by (cases rest) auto
      from Suc.IH [OF Suc.prems(1,2) this] False buf show ?thesis
        by (simp add: chunked_more unread_Read_through)
    qed
  next
    case False
    have "length (drop n buf) + length rest < fuel"
      using Suc.prems(2,3) False by (cases buf) auto
    from Suc.IH [OF Suc.prems(1,2) this] False show ?thesis
      by (simp add: unread_Read_buffered)
  qed
qed

text \<open>
  Claim C9. Let the stream hold the bytes \<open>bs\<close> and deliver at most \<open>k\<close> of them at
  each read. When \<^verbatim>\<open>ServeConn\<close> hands the wrapped stream \<open>w\<close> to a handler, \<open>w\<close>
  wraps the stream as \<^verbatim>\<open>Handler\<close> left it around the bytes that \<^verbatim>\<open>Handler\<close>
  returned; these bytes followed by the bytes left in the stream are \<open>bs\<close>; and reading
  \<open>w\<close> to its end yields exactly what reading the original stream to its end yields
  when no matching is performed: the bytes \<open>bs\<close>, in order, and then the same end.
\<close>

theorem replay_fidelity:
  assumes S: "ServeConn ops m (chunked k fin) bs = Some [Served c w]"
    and k: "0 < k" and n: "0 < n" and fuel: "length bs < fuel"
  shows "w = UnreadConn (snd w) (fst w) \<and>
    fst (Handler ops m (chunked k fin) bs) = Return (Some c) (fst w) None \<and>
    fst (snd (Handler ops m (chunked k fin) bs)) = snd w \<and>
    fst w @ snd w = bs \<and>
    read_all fuel n (unread_Read (chunked k fin)) w = (bs, fin) \<and>
    read_all fuel n (chunked k fin) bs = (bs, fin)"
proof -
  obtain res s' tr where H: "Handler ops m (chunked k fin) bs = (res, s', tr)"
    by (metis prod.exhaust)
  with S obtain buf where res: "res = Return (Some c) buf None" and w: "w = (buf, s')"
    by (auto simp: ServeConn_def UnreadConn_def split: result.splits option.splits)
  from Handler_success_bytes [OF H [unfolded res]]
    Handler_stream_log [of "chunked k fin", OF chunked_bytes H]
  have split: "buf @ s' = bs" by simp
  then have "length buf + length s' < fuel" using fuel by auto
  from read_all_unread [OF k n this, of fin] read_all_chunked [OF k n fuel, of fin] H res w split
  show ?thesis by (simp add: UnreadConn_def)
qed

text \<open>
  The theorem at the registry of \<^verbatim>\<open>"AB"\<close> and \<^verbatim>\<open>"ABC"\<close> and a stream holding
  \<^verbatim>\<open>"ABCD"\<close>, read into buffers of three bytes.
\<close>

theorem replay_fidelity_witness:
  "read_all 5 3 (unread_Read (chunked 2 (Some EOF))) (UnreadConn [68] [65, 66, 67]) =
     ([65, 66, 67, 68], Some EOF) \<and>
   read_all 5 3 (chunked 2 (Some EOF)) [65, 66, 67, 68] = ([65, 66, 67, 68], Some EOF) \<and>
   ServeConn spec_trie AB_ABC (chunked 2 (Some EOF)) [65, 66, 67, 68] =
     Some [Served 2 (UnreadConn [68] [65, 66, 67])]"
proof -
  have S: "ServeConn spec_trie AB_ABC (chunked 2 (Some EOF)) [65, 66, 67, 68] =
     Some [Served 2 (UnreadConn [68] [65, 66, 67])]"
    by code_simp
  have k: "0 < (2::nat)" and n: "0 < (3::nat)" and fuel: "length [65, 66, 67, 68 :: byte] < 5"
    by simp_all
  show ?thesis
    using S replay_fidelity [OF S k n fuel] by simp
qed

end
